theory Spec2Isabelle
  imports Main
begin

section \<open>Blended trending subreddits: the script \<open>gen_trending_subriff.py\<close>\<close>

text \<open>
  The script queries one HTTP endpoint once per (size filter, sort period) combination,
  counts in a \<open>Counter\<close> how often each name comes back, and returns the 35 most common
  names. The model follows the script function by function. The network is a parameter
  (a function from the request to what \<open>requests.get\<close> does), exceptions are values of a
  sum type, and what \<open>print\<close> writes is a list of lines returned beside the result.
\<close>

subsection \<open>Constants (lines 13--16)\<close>

definition BASE_URL :: string where
  "BASE_URL = ''https://subriff.com/Home/GetSubreddits''"

definition SIZE_FILTERS :: "string list" where
  "SIZE_FILTERS = [''medium-small'', ''medium'', ''large'', ''xlarge'']"

definition SORT_PERIODS :: "string list" where
  "SORT_PERIODS = [''daily'', ''weekly'']"

definition FINAL_OUTPUT_LIMIT :: nat where
  "FINAL_OUTPUT_LIMIT = 35"

subsection \<open>Python values and exceptions\<close>

text \<open>
  What \<open>response.json()\<close> returns. Numbers are read here only through their truth
  value (zero or not), so integers stand for all of them. An object is the parsed
  \<open>dict\<close> in insertion order, each key once.
\<close>

datatype json =
    JNull
  | JBool bool
  | JNum int
  | JStr string
  | JArr "json list"
  | JObj "(string \<times> json) list"

text \<open>
  The exceptions the script can meet, all of them subclasses of \<open>Exception\<close> (so all
  caught by \<open>except Exception\<close>): the class and the text \<open>str(e)\<close> gives.
\<close>

datatype exn_class =
    ConnectionError
  | Timeout
  | HTTPError
  | JSONDecodeError
  | AttributeError
  | TypeError

datatype exn = Exn exn_class string

fun str_exn :: "exn \<Rightarrow> string" where
  "str_exn (Exn c msg) = msg"

text \<open>Python's truth value of a decoded JSON value (\<open>if v:\<close>, \<open>v or w\<close>).\<close>

fun truthy :: "json \<Rightarrow> bool" where
  "truthy JNull = False"
| "truthy (JBool b) = b"
| "truthy (JNum n) = (n \<noteq> 0)"
| "truthy (JStr s) = (s \<noteq> [])"
| "truthy (JArr xs) = (xs \<noteq> [])"
| "truthy (JObj kvs) = (kvs \<noteq> [])"

fun type_name :: "json \<Rightarrow> string" where
  "type_name JNull = ''NoneType''"
| "type_name (JBool b) = ''bool''"
| "type_name (JNum n) = ''int''"
| "type_name (JStr s) = ''str''"
| "type_name (JArr xs) = ''list''"
| "type_name (JObj kvs) = ''dict''"

text \<open>
  \<open>v.get(key, default)\<close>: only a \<open>dict\<close> has the method; on any other value the
  attribute lookup raises \<open>AttributeError\<close>.
\<close>

fun dict_get :: "json \<Rightarrow> string \<Rightarrow> json \<Rightarrow> exn + json" where
  "dict_get (JObj kvs) key dflt =
     Inr (case map_of kvs key of None \<Rightarrow> dflt | Some v \<Rightarrow> v)"
| "dict_get v key dflt =
     Inl (Exn AttributeError (type_name v @ '' object has no attribute get''))"

text \<open>
  \<open>for sub in v\<close>: a list yields its elements, a dict its keys, a string its
  characters (each a string); the other values are not iterable.
\<close>

fun iterate :: "json \<Rightarrow> exn + json list" where
  "iterate (JArr xs) = Inr xs"
| "iterate (JObj kvs) = Inr (map (\<lambda>kv. JStr (fst kv)) kvs)"
| "iterate (JStr s) = Inr (map (\<lambda>c. JStr [c]) s)"
| "iterate v = Inl (Exn TypeError (type_name v @ '' object is not iterable''))"

subsection \<open>The HTTP request (lines 21--35)\<close>

text \<open>
  A response: its status code and what \<open>response.json()\<close> does on its body (returns
  the decoded value, or raises). \<open>requests.get\<close> is a parameter of the model: it
  raises (connection error, timeout after 30 seconds) or returns a response.
\<close>

record response =
  status_code :: nat
  json_body :: "exn + json"

type_synonym http_get = "string \<Rightarrow> (string \<times> string) list \<Rightarrow> exn + response"

definition params :: "string \<Rightarrow> string \<Rightarrow> (string \<times> string) list" where
  "params size_filter sort_by =
     [(''page'', ''1''),
      (''sizeFilter'', size_filter),
      (''searchTerm'', ''''),
      (''sortBy'', sort_by),
      (''growthType'', ''percent''),
      (''sortColumn'', ''''),
      (''sortDirection'', ''''),
      (''dateFilter'', ''all''),
      (''allowsPromotion'', ''false''),
      (''nsfw'', ''true'')]"

text \<open>
  \<open>response.raise_for_status()\<close> raises \<open>HTTPError\<close> on a 4xx or 5xx status. The
  texts of the exceptions are the libraries'; short fixed texts stand for them here.
\<close>

definition raise_for_status :: "response \<Rightarrow> exn + unit" where
  "raise_for_status r =
     (if 400 \<le> status_code r \<and> status_code r < 600
      then Inl (Exn HTTPError ''HTTP error status'')
      else Inr ())"

subsection \<open>The fetcher (lines 19--52)\<close>

text \<open>
  Lines 21--35 build the query, send it and decode the body: they raise what
  \<open>requests.get\<close>, \<open>raise_for_status\<close> or \<open>response.json()\<close> raise, and otherwise
  hand the decoded body to lines 37--52. The function is written with those last lines
  as a parameter (\<open>rest\<close>, lines 37--52), for the reason given below.
\<close>

definition fetch_subreddits ::
  "(json \<Rightarrow> exn + 'a list) \<Rightarrow> http_get \<Rightarrow> string \<Rightarrow> string \<Rightarrow> exn + 'a list" where
  "fetch_subreddits rest get size_filter sort_by =
     (case get BASE_URL (params size_filter sort_by) of
        Inl e \<Rightarrow> Inl e
      | Inr response \<Rightarrow>
          (case raise_for_status response of
             Inl e \<Rightarrow> Inl e
           | Inr u \<Rightarrow>
               (case json_body response of
                  Inl e \<Rightarrow> Inl e
                | Inr data \<Rightarrow> rest data)))"

subsection \<open>Extracting the names (lines 37--52)\<close>

text \<open>
  Lines 40--47 of the script read
  \<^verbatim>\<open>
        nsfw = ""
        if (
            sub.get("isNsfw")
            or sub.get("internal_IsNsfw")
            or sub.get("suggested_Internal_IsNsfw")
            nsfw = "true"
        ):
            continue
  \<close>
  The assignment on line 45 stands inside the parentheses of the condition, where
  Python accepts no statement: the block is not a Python statement and has no
  behaviour of its own. The model fixes no reading of it. What the block does to one
  entry is a parameter \<open>block\<close> of the loop: it raises, or it gives whether
  \<open>continue\<close> is taken and the value it leaves in the local \<open>nsfw\<close>. Line 40 sets
  \<open>nsfw\<close> anew on every pass, so that effect depends on the entry alone. The lines
  around the block (38, 48--52) are modelled as they are written, and what is proved of
  them is proved for every \<open>block\<close>.
\<close>

type_synonym block_effect = "json \<Rightarrow> exn + bool \<times> string"

text \<open>
  Lines 48--51, with the value \<open>nsfw\<close> the block left:
  \<^verbatim>\<open>
        name = sub.get("displayName", "")
        if name:
            if nsfw:
                names.append(name)
  \<close>
\<close>

definition append_name :: "string \<Rightarrow> json \<Rightarrow> json list \<Rightarrow> exn + json list" where
  "append_name nsfw sub names =
     (case dict_get sub ''displayName'' (JStr '''') of
        Inl e \<Rightarrow> Inl e
      | Inr name \<Rightarrow>
          if truthy name
          then (if nsfw \<noteq> '''' then Inr (names @ [name]) else Inr names)
          else Inr names)"

text \<open>One pass of the loop body on the entry \<open>sub\<close>, with the list \<open>names\<close> so far.\<close>

definition loop_body :: "block_effect \<Rightarrow> json \<Rightarrow> json list \<Rightarrow> exn + json list" where
  "loop_body block sub names =
     (case block sub of
        Inl e \<Rightarrow> Inl e
      | Inr (skip, nsfw) \<Rightarrow> if skip then Inr names else append_name nsfw sub names)"

fun extract_names :: "block_effect \<Rightarrow> json list \<Rightarrow> json list \<Rightarrow> exn + json list" where
  "extract_names block [] names = Inr names"
| "extract_names block (sub # subs) names =
     (case loop_body block sub names of
        Inl e \<Rightarrow> Inl e
      | Inr names' \<Rightarrow> extract_names block subs names')"

text \<open>Lines 37--52 on the decoded body \<open>data\<close>.\<close>

definition names_of_data :: "block_effect \<Rightarrow> json \<Rightarrow> exn + json list" where
  "names_of_data block data =
     (case dict_get data ''subreddits'' (JArr []) of
        Inl e \<Rightarrow> Inl e
      | Inr v \<Rightarrow>
          (case iterate v of
             Inl e \<Rightarrow> Inl e
           | Inr subs \<Rightarrow> extract_names block subs []))"

subsection \<open>The counter\<close>

text \<open>
  \<open>collections.Counter\<close>: a dict from names to integer counts, kept in insertion
  order. \<open>update\<close> adds one per element of the iterable, a new key going to the end;
  \<open>most_common(n)\<close> is the first \<open>n\<close> entries of the stable sort by descending count.
\<close>

type_synonym 'a counter = "('a \<times> int) list"

fun counter_incr :: "'a \<Rightarrow> 'a counter \<Rightarrow> 'a counter" where
  "counter_incr elem [] = [(elem, 1)]"
| "counter_incr elem ((k, c) # rest) =
     (if k = elem then (k, c + 1) # rest else (k, c) # counter_incr elem rest)"

definition update :: "'a list \<Rightarrow> 'a counter \<Rightarrow> 'a counter" where
  "update names self = fold counter_incr names self"

definition most_common :: "nat \<Rightarrow> 'a counter \<Rightarrow> ('a \<times> int) list" where
  "most_common n self = take n (sort_key (\<lambda>item. - snd item) self)"

text \<open>\<open>self[key]\<close> of a Counter: the count, 0 for a key that is not there.\<close>

definition counter_get :: "'a counter \<Rightarrow> 'a \<Rightarrow> int" where
  "counter_get self key = (case map_of self key of None \<Rightarrow> 0 | Some c \<Rightarrow> c)"

subsection \<open>Aggregation and ranking (lines 55--69)\<close>

definition warning :: "string \<Rightarrow> string \<Rightarrow> exn \<Rightarrow> string" where
  "warning size_filter sort_by e =
     ''Warning: Failed to fetch '' @ size_filter @ ''/'' @ sort_by @ '': '' @ str_exn e"

text \<open>
  The body of the inner loop (lines 61--65). The state is the counter and the lines
  printed so far; the fetcher is a parameter, so that it can be the script's own or a
  stand-in. The names a fetcher returns are strings (its annotation is \<open>list[str]\<close>),
  which \<open>update\<close> can always count, so the only exceptions of the \<open>try\<close> block are
  those of the call.
\<close>

fun try_fetch ::
  "(string \<Rightarrow> string \<Rightarrow> exn + 'a list) \<Rightarrow> string \<Rightarrow> string \<Rightarrow>
   'a counter \<times> string list \<Rightarrow> 'a counter \<times> string list" where
  "try_fetch fetch size_filter sort_by (appearances, out) =
     (case fetch size_filter sort_by of
        Inr names \<Rightarrow> (update names appearances, out)
      | Inl e \<Rightarrow> (appearances, out @ [warning size_filter sort_by e]))"

text \<open>The two nested loops (lines 57--65), from the empty counter.\<close>

definition aggregate ::
  "(string \<Rightarrow> string \<Rightarrow> exn + 'a list) \<Rightarrow> 'a counter \<times> string list" where
  "aggregate fetch =
     fold (\<lambda>size_filter. fold (\<lambda>sort_by. try_fetch fetch size_filter sort_by) SORT_PERIODS)
       SIZE_FILTERS ([], [])"

text \<open>The function: the result list, and the lines printed on the way.\<close>

definition generate_blended_trending ::
  "(string \<Rightarrow> string \<Rightarrow> exn + 'a list) \<Rightarrow> 'a list \<times> string list" where
  "generate_blended_trending fetch =
     (case aggregate fetch of
        (appearances, out) \<Rightarrow>
          (map fst (most_common FINAL_OUTPUT_LIMIT appearances), out))"

subsection \<open>Notions used to state the properties\<close>

text \<open>
  The calls of one run in the order the nested loops make them (outer loop the size
  filters, inner loop the sort periods), the names they return one after the other
  (a failed call gives none), and the warnings they cause.
\<close>

definition combinations :: "(string \<times> string) list" where
  "combinations = List.product SIZE_FILTERS SORT_PERIODS"

definition names_of_calls ::
  "(string \<Rightarrow> string \<Rightarrow> exn + 'a list) \<Rightarrow> (string \<times> string) list \<Rightarrow> 'a list" where
  "names_of_calls fetch calls =
     concat (map (\<lambda>call. case fetch (fst call) (snd call) of
                            Inl e \<Rightarrow> [] | Inr names \<Rightarrow> names) calls)"

definition warnings_of_calls ::
  "(string \<Rightarrow> string \<Rightarrow> exn + 'a list) \<Rightarrow> (string \<times> string) list \<Rightarrow> string list" where
  "warnings_of_calls fetch calls =
     concat (map (\<lambda>call. case fetch (fst call) (snd call) of
                            Inl e \<Rightarrow> [warning (fst call) (snd call) e]
                          | Inr names \<Rightarrow> []) calls)"

text \<open>The position of the first occurrence of \<open>x\<close> in a list (its length when absent).\<close>

fun first_index :: "'a \<Rightarrow> 'a list \<Rightarrow> nat" where
  "first_index x [] = 0"
| "first_index x (y # ys) = (if y = x then 0 else Suc (first_index x ys))"

text \<open>
  The count the run ends with for a name, and the place at which the name first came
  back during the run.
\<close>

definition appearance_count :: "(string \<Rightarrow> string \<Rightarrow> exn + 'a list) \<Rightarrow> 'a \<Rightarrow> int" where
  "appearance_count fetch name = counter_get (fst (aggregate fetch)) name"

definition first_encounter :: "(string \<Rightarrow> string \<Rightarrow> exn + 'a list) \<Rightarrow> 'a \<Rightarrow> nat" where
  "first_encounter fetch name = first_index name (names_of_calls fetch combinations)"

text \<open>
  The points of a run. The nested loops make the calls of \<open>combinations\<close> one after the
  other, and \<open>update\<close> is itself a loop of single increments. \<open>state_after_calls fetch k\<close>
  is the state of the loops after their first \<open>k\<close> calls; \<open>counter_at fetch k j\<close> is the
  counter \<open>j\<close> increments into the \<open>update\<close> of the next call (the counter at the end
  of the run when there is no next call); \<open>names_so_far fetch k j\<close> is the sequence of
  the names counted up to that point.
\<close>

definition state_after_calls ::
  "(string \<Rightarrow> string \<Rightarrow> exn + 'a list) \<Rightarrow> nat \<Rightarrow> 'a counter \<times> string list" where
  "state_after_calls fetch k =
     fold (\<lambda>call. try_fetch fetch (fst call) (snd call)) (take k combinations) ([], [])"

definition counter_at :: "(string \<Rightarrow> string \<Rightarrow> exn + 'a list) \<Rightarrow> nat \<Rightarrow> nat \<Rightarrow> 'a counter" where
  "counter_at fetch k j =
     update (take j (names_of_calls fetch (take 1 (drop k combinations))))
       (fst (state_after_calls fetch k))"

definition names_so_far :: "(string \<Rightarrow> string \<Rightarrow> exn + 'a list) \<Rightarrow> nat \<Rightarrow> nat \<Rightarrow> 'a list" where
  "names_so_far fetch k j =
     names_of_calls fetch (take k combinations)
       @ take j (names_of_calls fetch (take 1 (drop k combinations)))"

subsection \<open>Stand-ins for the fetcher\<close>

text \<open>
  The fetcher of the test in the specification: \<open>["a", "b"]\<close> for (medium, daily),
  \<open>["a"]\<close> for (medium, weekly), nothing for the other combinations.
\<close>

definition mock_fetch :: "string \<Rightarrow> string \<Rightarrow> exn + string list" where
  "mock_fetch size_filter sort_by =
     (if size_filter = ''medium'' \<and> sort_by = ''daily'' then Inr [''a'', ''b'']
      else if size_filter = ''medium'' \<and> sort_by = ''weekly'' then Inr [''a'']
      else Inr [])"

text \<open>Every call fails.\<close>

definition failing_fetch :: "string \<Rightarrow> string \<Rightarrow> exn + string list" where
  "failing_fetch size_filter sort_by = Inl (Exn ConnectionError ''connection refused'')"

text \<open>One call fails; no call returns a name twice.\<close>

definition flaky_fetch :: "string \<Rightarrow> string \<Rightarrow> exn + string list" where
  "flaky_fetch size_filter sort_by =
     (if size_filter = ''large'' \<and> sort_by = ''daily'' then Inl (Exn Timeout ''timed out'')
      else if sort_by = ''daily'' then Inr [''x'', ''y'']
      else Inr [''y''])"

text \<open>One call returns the same name nine times.\<close>

definition repeating_fetch :: "string \<Rightarrow> string \<Rightarrow> exn + string list" where
  "repeating_fetch size_filter sort_by =
     (if size_filter = ''medium-small'' \<and> sort_by = ''daily'' then Inr (replicate 9 ''a'')
      else Inr [])"

text \<open>Two names with the same count, a third with a higher one.\<close>

definition tie_fetch :: "string \<Rightarrow> string \<Rightarrow> exn + string list" where
  "tie_fetch size_filter sort_by =
     (if size_filter = ''medium'' \<and> sort_by = ''daily'' then Inr [''p'', ''q'', ''r'']
      else if size_filter = ''medium'' \<and> sort_by = ''weekly'' then Inr [''r'']
      else Inr [])"

subsection \<open>A sample server\<close>

text \<open>
  Three entries: one flagged NSFW, one not flagged, one flagged with an empty display
  name. The server answers the requests for \<open>medium-small\<close> with a connection error,
  those for \<open>medium\<close> with status 503, those for \<open>large\<close> with a body that does not
  decode, and the others with the three entries.
\<close>

definition nsfw_entry :: json where
  "nsfw_entry = JObj [(''displayName'', JStr ''x''), (''isNsfw'', JBool True)]"

definition plain_entry :: json where
  "plain_entry = JObj [(''displayName'', JStr ''y''), (''isNsfw'', JBool False)]"

definition unnamed_entry :: json where
  "unnamed_entry = JObj [(''displayName'', JStr ''''), (''isNsfw'', JBool True)]"

definition sample_body :: json where
  "sample_body = JObj [(''subreddits'', JArr [nsfw_entry, plain_entry, unnamed_entry])]"

definition sample_get :: http_get where
  "sample_get url query =
     (if (''sizeFilter'', ''medium-small'') \<in> set query
        then Inl (Exn ConnectionError ''connection refused'')
      else if (''sizeFilter'', ''medium'') \<in> set query
        then Inr \<lparr>status_code = 503, json_body = Inr sample_body\<rparr>
      else if (''sizeFilter'', ''large'') \<in> set query
        then Inr \<lparr>status_code = 200, json_body = Inl (Exn JSONDecodeError ''Expecting value'')\<rparr>
      else Inr \<lparr>status_code = 200, json_body = Inr sample_body\<rparr>)"


text \<open>
  A stand-in for the block of lines 40--47: every entry goes on to line 48 with the
  flag set.
\<close>

definition flag_always :: block_effect where
  "flag_always sub = Inr (False, ''true'')"

section \<open>The counter\<close>

lemma update_Nil: "update [] c = c"
  by (simp add: update_def)

lemma update_Cons: "update (x # xs) c = update xs (counter_incr x c)"
  by (simp add: update_def)

lemma update_append: "update (xs @ ys) c = update ys (update xs c)"
  by (simp add: update_def)

lemma keys_counter_incr:
  "map fst (counter_incr x c) = (if x \<in> fst ` set c then map fst c else map fst c @ [x])"
  by (induction c) (force split: if_splits)+

lemma distinct_keys_counter_incr:
  "distinct (map fst c) \<Longrightarrow> distinct (map fst (counter_incr x c))"
  by (simp add: keys_counter_incr)

lemma distinct_keys_update:
  "distinct (map fst c) \<Longrightarrow> distinct (map fst (update xs c))"
  by (induction xs arbitrary: c) (simp_all add: update_Nil update_Cons distinct_keys_counter_incr)

lemma set_keys_update: "fst ` set (update xs c) = fst ` set c \<union> set xs"
proof (induction xs arbitrary: c)
  case Nil
  show ?case by (simp add: update_Nil)
next
  case (Cons x xs)
  have "set (map fst (counter_incr x c)) = insert x (fst ` set c)"
    unfolding keys_counter_incr by auto
  then have "fst ` set (counter_incr x c) = insert x (fst ` set c)"
    by simp
  with Cons show ?case by (simp add: update_Cons)
qed

lemma counter_get_incr:
  "counter_get (counter_incr x c) k = counter_get c k + (if k = x then 1 else 0)"
  by (induction c) (auto simp: counter_get_def)

lemma counter_get_update:
  "counter_get (update xs c) k = counter_get c k + int (count_list xs k)"
  by (induction xs arbitrary: c) (auto simp: update_Nil update_Cons counter_get_incr)

lemma counter_get_entry:
  "distinct (map fst c) \<Longrightarrow> (k, n) \<in> set c \<Longrightarrow> counter_get c k = n"
  by (simp add: counter_get_def)

lemma fold_pairs:
  "fold (\<lambda>s. fold (\<lambda>p. f s p) ps) ss st = fold (\<lambda>call. f (fst call) (snd call)) (List.product ss ps) st"
proof (induction ss arbitrary: st)
  case Nil
  show ?case by simp
next
  case (Cons s ss)
  have "fold (\<lambda>call. f (fst call) (snd call)) (map (Pair s) ps) st = fold (\<lambda>p. f s p) ps st"
    by (simp add: fold_map comp_def)
  with Cons show ?case by simp
qed

lemma fold_try_fetch:
  "fold (\<lambda>call. try_fetch fetch (fst call) (snd call)) calls (c, out) =
     (update (names_of_calls fetch calls) c, out @ warnings_of_calls fetch calls)"
proof (induction calls arbitrary: c out)
  case Nil
  show ?case by (simp add: names_of_calls_def warnings_of_calls_def update_Nil)
next
  case (Cons call calls)
  show ?case
  proof (cases "fetch (fst call) (snd call)")
    case (Inl e)
    then show ?thesis
      using Cons [of c "out @ [warning (fst call) (snd call) e]"]
      by (simp add: names_of_calls_def warnings_of_calls_def)
  next
    case (Inr names)
    then show ?thesis
      using Cons [of "update names c" out]
      by (simp add: names_of_calls_def warnings_of_calls_def update_append)
  qed
qed

lemma aggregate_eq:
  "aggregate fetch =
     (update (names_of_calls fetch combinations) [], warnings_of_calls fetch combinations)"
  unfolding aggregate_def combinations_def
  by (simp only: fold_pairs fold_try_fetch append_Nil)

section \<open>Order of the result\<close>

lemma first_index_append:
  "first_index a (xs @ ys) =
     (if a \<in> set xs then first_index a xs else length xs + first_index a ys)"
  by (induction xs) auto

lemma first_index_less: "x \<in> set xs \<Longrightarrow> first_index x xs < length xs"
  by (induction xs) auto

lemma nth_first_index: "x \<in> set xs \<Longrightarrow> xs ! first_index x xs = x"
  by (induction xs) auto

lemma sorted_wrt_first_index:
  assumes "sorted_wrt R xs" and "x \<in> set xs" and "y \<in> set xs"
    and "\<not> R y x" and "x \<noteq> y"
  shows "first_index x xs < first_index y xs"
proof (rule ccontr)
  assume "\<not> first_index x xs < first_index y xs"
  moreover have "first_index x xs \<noteq> first_index y xs"
    using assms(2,3,5) nth_first_index by metis
  ultimately have "first_index y xs < first_index x xs" by simp
  then have "R (xs ! first_index y xs) (xs ! first_index x xs)"
    using assms(1,2) first_index_less sorted_wrt_nth_less by metis
  then show False
    using assms(2,3,4) by (simp add: nth_first_index)
qed

lemma sorted_wrt_take_prefix: "sorted_wrt R xs \<Longrightarrow> sorted_wrt R (take n xs)"
  using sorted_wrt_append [of R "take n xs" "drop n xs"] by simp

lemma sorted_wrt_insort_key:
  assumes "sorted_wrt R ys" and "sorted (map f ys)"
    and "\<And>y. y \<in> set ys \<Longrightarrow> f x \<le> f y \<Longrightarrow> R x y"
    and "\<And>y. y \<in> set ys \<Longrightarrow> f y < f x \<Longrightarrow> R y x"
  shows "sorted_wrt R (insort_key f x ys)"
  using assms
proof (induction ys)
  case Nil
  show ?case by simp
next
  case (Cons y ys)
  show ?case
  proof (cases "f x \<le> f y")
    case True
    have "R x z" if "z \<in> set (y # ys)" for z
    proof -
      have "f y \<le> f z" using that Cons.prems(2) by auto
      with True have "f x \<le> f z" by simp
      with that show ?thesis using Cons.prems(3) by blast
    qed
    with True Cons.prems(1) show ?thesis by simp
  next
    case False
    have tail: "sorted_wrt R (insort_key f x ys)"
      using Cons.IH Cons.prems by simp
    have "R y x" using False Cons.prems(4) [of y] by simp
    moreover have "\<And>z. z \<in> set ys \<Longrightarrow> R y z" using Cons.prems(1) by simp
    ultimately have "\<And>z. z \<in> set (insort_key f x ys) \<Longrightarrow> R y z"
      by (auto simp: set_insort_key)
    with False tail show ?thesis by simp
  qed
qed

lemma sorted_wrt_sort_key:
  assumes "sorted_wrt (\<lambda>a b. pos a < pos b) xs"
  shows "sorted_wrt (\<lambda>a b. f a < f b \<or> (f a = f b \<and> (pos a :: nat) < pos b)) (sort_key (f :: 'b \<Rightarrow> int) xs)"
  using assms
proof (induction xs)
  case Nil
  show ?case by simp
next
  case (Cons x xs)
  have "sorted_wrt (\<lambda>a b. f a < f b \<or> (f a = f b \<and> pos a < pos b)) (insort_key f x (sort_key f xs))"
  proof (rule sorted_wrt_insort_key)
    show "sorted_wrt (\<lambda>a b. f a < f b \<or> (f a = f b \<and> pos a < pos b)) (sort_key f xs)"
      using Cons by simp
    show "sorted (map f (sort_key f xs))" by (rule sorted_sort_key)
  next
    fix y assume "y \<in> set (sort_key f xs)" and "f x \<le> f y"
    then show "f x < f y \<or> (f x = f y \<and> pos x < pos y)"
      using Cons.prems by auto
  next
    fix y assume "y \<in> set (sort_key f xs)" and "f y < f x"
    then show "f y < f x \<or> (f y = f x \<and> pos y < pos x)" by simp
  qed
  then show ?case by simp
qed

lemma keys_update_first_seen:
  "fst ` set (update xs []) = set xs \<and>
   sorted_wrt (\<lambda>a b. first_index a xs < first_index b xs) (map fst (update xs []))"
proof (induction xs rule: rev_induct)
  case Nil
  show ?case by (simp add: update_Nil)
next
  case (snoc x xs)
  let ?c = "update xs []"
  have upd: "update (xs @ [x]) [] = counter_incr x ?c"
    by (simp add: update_append update_Cons update_Nil)
  have keys: "fst ` set ?c = set xs" using snoc by simp
  have mono: "sorted_wrt (\<lambda>a b. first_index a (xs @ [x]) < first_index b (xs @ [x])) (map fst ?c)"
  proof (rule sorted_wrt_mono_rel [where P = "\<lambda>a b. first_index a xs < first_index b xs"])
    show "sorted_wrt (\<lambda>a b. first_index a xs < first_index b xs) (map fst ?c)"
      using snoc by simp
  next
    fix a b assume "a \<in> set (map fst ?c)" "b \<in> set (map fst ?c)"
      and "first_index a xs < first_index b xs"
    then show "first_index a (xs @ [x]) < first_index b (xs @ [x])"
      using keys by (simp add: first_index_append)
  qed
  show ?case
  proof (cases "x \<in> set xs")
    case True
    then have "map fst (counter_incr x ?c) = map fst ?c"
      using keys by (simp add: keys_counter_incr)
    moreover from this have "fst ` set (counter_incr x ?c) = fst ` set ?c"
      by (metis list.set_map)
    ultimately show ?thesis using True keys mono upd by auto
  next
    case False
    then have k: "map fst (counter_incr x ?c) = map fst ?c @ [x]"
      using keys by (simp add: keys_counter_incr)
    then have s: "fst ` set (counter_incr x ?c) = insert x (fst ` set ?c)"
      by (metis Un_insert_right append_Nil2 list.set(2) list.set_map set_append)
    have "\<forall>a\<in>set (map fst ?c). first_index a (xs @ [x]) < first_index x (xs @ [x])"
      using keys False by (simp add: first_index_append first_index_less)
    with mono have "sorted_wrt (\<lambda>a b. first_index a (xs @ [x]) < first_index b (xs @ [x])) (map fst ?c @ [x])"
      by (simp add: sorted_wrt_append)
    with k s keys upd show ?thesis by auto
  qed
qed

section \<open>The result list\<close>

lemma distinct_keys_aggregate: "distinct (map fst (fst (aggregate fetch)))"
  by (simp add: aggregate_eq distinct_keys_update)

lemma generate_eq:
  "generate_blended_trending fetch =
     (map fst (most_common FINAL_OUTPUT_LIMIT (fst (aggregate fetch))), snd (aggregate fetch))"
  by (simp add: generate_blended_trending_def split: prod.splits)

lemma distinct_keys_most_common:
  assumes "distinct (map fst c)"
  shows "distinct (map fst (most_common n c))"
proof -
  have "distinct (map fst (sort_key (\<lambda>item. - snd item) c))"
    using assms by (simp add: distinct_map)
  then have "distinct (take n (map fst (sort_key (\<lambda>item. - snd item) c)))"
    by (rule distinct_take)
  then show ?thesis by (simp add: most_common_def take_map)
qed

lemma most_common_all:
  "length c \<le> n \<Longrightarrow> set (map fst (most_common n c)) = fst ` set c"
  by (simp add: most_common_def)

lemma length_counter_distinct: "distinct (map fst c) \<Longrightarrow> card (fst ` set c) = length c"
  by (metis distinct_card length_map list.set_map)

section \<open>The aggregation loop\<close>






lemma all_calls_fail:
  assumes "\<forall>call\<in>set calls. isl (fetch (fst call) (snd call))"
  shows "names_of_calls fetch calls = [] \<and> length (warnings_of_calls fetch calls) = length calls"
  using assms
proof (induction calls)
  case Nil
  show ?case by (simp add: names_of_calls_def warnings_of_calls_def)
next
  case (Cons call calls)
  then obtain e where "fetch (fst call) (snd call) = Inl e"
    by (cases "fetch (fst call) (snd call)") auto
  with Cons show ?case by (simp add: names_of_calls_def warnings_of_calls_def)
qed

lemma length_combinations: "length combinations = 8"
  by (simp add: combinations_def SIZE_FILTERS_def SORT_PERIODS_def)

lemma count_list_take_le: "count_list (take n xs) x \<le> count_list xs x"
proof -
  have "count_list (take n xs @ drop n xs) x = count_list (take n xs) x + count_list (drop n xs) x"
    by (rule count_list_append)
  then show ?thesis by simp
qed

lemma count_list_distinct: "distinct xs \<Longrightarrow> count_list xs x \<le> 1"
  by (induction xs) auto

lemma count_names_of_calls:
  assumes "\<forall>call\<in>set calls. \<forall>names. fetch (fst call) (snd call) = Inr names \<longrightarrow> distinct names"
  shows "count_list (names_of_calls fetch calls) x \<le> length calls"
  using assms
proof (induction calls)
  case Nil
  show ?case by (simp add: names_of_calls_def)
next
  case (Cons call calls)
  have ih: "count_list (names_of_calls fetch calls) x \<le> length calls"
    using Cons by simp
  show ?case
  proof (cases "fetch (fst call) (snd call)")
    case (Inl e)
    with ih show ?thesis by (simp add: names_of_calls_def)
  next
    case (Inr names)
    then have "count_list names x \<le> 1"
      using Cons.prems count_list_distinct [of names x] by simp
    with ih Inr show ?thesis by (simp add: names_of_calls_def)
  qed
qed

lemma counter_get_Nil: "counter_get [] k = 0"
  by (simp add: counter_get_def)

lemma state_after_calls_eq:
  "state_after_calls fetch k =
     (update (names_of_calls fetch (take k combinations)) [],
      warnings_of_calls fetch (take k combinations))"
  unfolding state_after_calls_def by (simp only: fold_try_fetch append_Nil)

lemma aggregate_flat:
  "aggregate fetch = fold (\<lambda>call. try_fetch fetch (fst call) (snd call)) combinations ([], [])"
  unfolding aggregate_def combinations_def by (simp only: fold_pairs)

lemma aggregate_state_after_calls: "aggregate fetch = state_after_calls fetch (length combinations)"
  by (simp add: aggregate_flat state_after_calls_def)

lemma counter_at_eq: "counter_at fetch k j = update (names_so_far fetch k j) []"
  by (simp add: counter_at_def names_so_far_def state_after_calls_eq update_append)

lemma counter_at_end: "counter_at fetch (length combinations) j = fst (aggregate fetch)"
  by (simp add: counter_at_def aggregate_state_after_calls names_of_calls_def update_Nil)

lemma names_of_calls_append:
  "names_of_calls fetch (xs @ ys) = names_of_calls fetch xs @ names_of_calls fetch ys"
  by (simp add: names_of_calls_def)

lemma count_names_so_far:
  assumes "\<forall>s\<in>set SIZE_FILTERS. \<forall>p\<in>set SORT_PERIODS. \<forall>names.
             fetch s p = Inr names \<longrightarrow> distinct names"
  shows "count_list (names_so_far fetch k j) x \<le> 8"
proof -
  let ?next = "take 1 (drop k combinations)"
  let ?calls = "take k combinations @ ?next"
  have sub: "set ?calls \<subseteq> set combinations"
    using set_take_subset [of k combinations] set_take_subset [of 1 "drop k combinations"]
      set_drop_subset [of k combinations]
    by auto
  have "\<forall>call\<in>set ?calls. \<forall>names.
          fetch (fst call) (snd call) = Inr names \<longrightarrow> distinct names"
  proof
    fix call assume "call \<in> set ?calls"
    with sub have "call \<in> set combinations" by blast
    then have "fst call \<in> set SIZE_FILTERS" "snd call \<in> set SORT_PERIODS"
      by (auto simp: combinations_def)
    with assms show "\<forall>names. fetch (fst call) (snd call) = Inr names \<longrightarrow> distinct names"
      by blast
  qed
  then have "count_list (names_of_calls fetch ?calls) x \<le> length ?calls"
    by (rule count_names_of_calls)
  moreover have "?calls = take (k + 1) combinations"
    by (rule take_add [symmetric])
  ultimately have "count_list (names_of_calls fetch ?calls) x \<le> 8"
    using length_combinations by simp
  moreover have "count_list (names_so_far fetch k j) x \<le> count_list (names_of_calls fetch ?calls) x"
    using count_list_take_le [of j "names_of_calls fetch ?next" x]
    by (simp add: names_so_far_def names_of_calls_append)
  ultimately show ?thesis by simp
qed

lemma keys_aggregate: "fst ` set (fst (aggregate fetch)) = set (names_of_calls fetch combinations)"
  by (simp add: aggregate_eq set_keys_update)

lemma names_of_calls_mem:
  assumes "k \<in> set (names_of_calls fetch calls)"
  shows "\<exists>call\<in>set calls. \<exists>names. fetch (fst call) (snd call) = Inr names \<and> k \<in> set names"
proof -
  from assms obtain call where c: "call \<in> set calls"
    and k: "k \<in> set (case fetch (fst call) (snd call) of Inl e \<Rightarrow> [] | Inr names \<Rightarrow> names)"
    by (auto simp: names_of_calls_def)
  from k obtain names where "fetch (fst call) (snd call) = Inr names" and "k \<in> set names"
    by (cases "fetch (fst call) (snd call)") auto
  with c show ?thesis by blast
qed





section \<open>Ranking\<close>

lemma most_common_sorted:
  assumes "distinct (map fst c)"
    and "sorted_wrt (\<lambda>a b. pos a < pos b) (map fst c)"
  shows "sorted_wrt (\<lambda>x y. counter_get c x > counter_get c y \<or>
                            (counter_get c x = counter_get c y \<and> (pos x :: nat) < pos y))
           (map fst (most_common n c))"
proof -
  let ?f = "\<lambda>item :: 'a \<times> int. - snd item"
  let ?R = "\<lambda>a b. ?f a < ?f b \<or> (?f a = ?f b \<and> pos (fst a) < pos (fst b))"
  let ?Q = "\<lambda>a b. counter_get c (fst a) > counter_get c (fst b) \<or>
                   (counter_get c (fst a) = counter_get c (fst b) \<and> pos (fst a) < pos (fst b))"
  have "sorted_wrt (\<lambda>a b. pos (fst a) < pos (fst b)) c"
    using assms(2) by (simp add: sorted_wrt_map)
  then have "sorted_wrt ?R (sort_key ?f c)"
    by (rule sorted_wrt_sort_key)
  then have "sorted_wrt ?R (most_common n c)"
    unfolding most_common_def by (rule sorted_wrt_take_prefix)
  moreover have "?Q a b" if "a \<in> set (most_common n c)" "b \<in> set (most_common n c)" "?R a b" for a b
  proof -
    have "a \<in> set c" "b \<in> set c"
      using that(1,2) by (auto simp: most_common_def dest: in_set_takeD)
    then have "counter_get c (fst a) = snd a" "counter_get c (fst b) = snd b"
      using assms(1) counter_get_entry [of c "fst a" "snd a"] counter_get_entry [of c "fst b" "snd b"]
      by simp_all
    with that(3) show ?thesis by auto
  qed
  ultimately have "sorted_wrt ?Q (most_common n c)"
    using sorted_wrt_mono_rel [of "most_common n c" ?R ?Q] by blast
  then show ?thesis by (simp add: sorted_wrt_map)
qed

lemma result_sorted:
  "sorted_wrt (\<lambda>x y. appearance_count fetch x > appearance_count fetch y \<or>
                      (appearance_count fetch x = appearance_count fetch y \<and>
                       first_encounter fetch x < first_encounter fetch y))
     (fst (generate_blended_trending fetch))"
proof -
  let ?xs = "names_of_calls fetch combinations"
  have t: "fst (aggregate fetch) = update ?xs []" by (simp add: aggregate_eq)
  have "sorted_wrt (\<lambda>a b. first_index a ?xs < first_index b ?xs) (map fst (update ?xs []))"
    using keys_update_first_seen [of ?xs] by simp
  moreover have "distinct (map fst (update ?xs []))"
    by (simp add: distinct_keys_update)
  ultimately show ?thesis
    unfolding generate_eq appearance_count_def first_encounter_def fst_conv t
    by (rule most_common_sorted [rotated])
qed

section \<open>The fetcher\<close>




text \<open>
  The loop: whatever the block of lines 40--47 does, a value is appended only by line
  51, behind the two guards, so every name the loop adds is true as a condition.
\<close>

lemma append_name_empty:
  "dict_get sub ''displayName'' (JStr '''') = Inr (JStr '''') \<Longrightarrow>
     append_name nsfw sub names = Inr names"
  by (simp add: append_name_def)

lemma append_name_new:
  assumes "append_name nsfw sub names = Inr names'" and "v \<in> set names'"
  shows "v \<in> set names \<or> truthy v"
  using assms by (auto simp: append_name_def split: sum.splits if_splits)

lemma append_name_unflagged: "append_name [] sub names = Inr names' \<Longrightarrow> names' = names"
  by (auto simp: append_name_def split: sum.splits if_splits)

lemma loop_body_new:
  assumes "loop_body block sub names = Inr names'" and "v \<in> set names'"
  shows "v \<in> set names \<or> truthy v"
  using assms append_name_new [of _ sub names names' v]
  by (auto simp: loop_body_def split: sum.splits prod.splits if_splits)

lemma loop_body_empty:
  assumes "dict_get sub ''displayName'' (JStr '''') = Inr (JStr '''')"
    and "loop_body block sub names = Inr names'"
  shows "names' = names"
  using assms append_name_empty [of sub _ names]
  by (auto simp: loop_body_def split: sum.splits prod.splits if_splits)

lemma extract_names_new:
  assumes "extract_names block subs names = Inr names'" and "v \<in> set names'"
  shows "v \<in> set names \<or> truthy v"
  using assms
proof (induction subs arbitrary: names)
  case Nil
  then show ?case by simp
next
  case (Cons sub subs)
  from Cons.prems(1) obtain mid where mid: "loop_body block sub names = Inr mid"
    and rest: "extract_names block subs mid = Inr names'"
    by (auto split: sum.splits)
  from Cons.IH [OF rest Cons.prems(2)] have "v \<in> set mid \<or> truthy v" .
  with loop_body_new [OF mid] show ?case by blast
qed

lemma names_of_data_truthy:
  assumes "names_of_data block data = Inr names" and "v \<in> set names"
  shows "truthy v"
  using assms extract_names_new [of block _ "[]" names v]
  by (auto simp: names_of_data_def split: sum.splits)

lemma fetch_subreddits_truthy:
  assumes "fetch_subreddits (names_of_data block) get s p = Inr names" and "v \<in> set names"
  shows "truthy v"
  using assms names_of_data_truthy [of block _ names v]
  by (auto simp: fetch_subreddits_def split: sum.splits)

lemma keys_of_run_truthy:
  assumes "v \<in> fst ` set (fst (aggregate (fetch_subreddits (names_of_data block) get)))"
  shows "truthy v"
proof -
  from assms have "v \<in> set (names_of_calls (fetch_subreddits (names_of_data block) get) combinations)"
    by (simp add: keys_aggregate)
  then have "\<exists>call\<in>set combinations. \<exists>names.
      fetch_subreddits (names_of_data block) get (fst call) (snd call) = Inr names \<and> v \<in> set names"
    by (rule names_of_calls_mem)
  then obtain call names
    where "fetch_subreddits (names_of_data block) get (fst call) (snd call) = Inr names"
      and "v \<in> set names"
    by auto
  then show ?thesis by (rule fetch_subreddits_truthy)
qed

section \<open>The properties of the specification\<close>

text \<open>
  Claim C1. For every fetcher, the list that \<open>generate_blended_trending\<close> returns has
  at most \<open>FINAL_OUTPUT_LIMIT\<close> = 35 entries and no name twice; when fewer than 35
  distinct names are in the counter, the result holds every one of them.
\<close>

theorem result_bounded_distinct_complete:
  "length (fst (generate_blended_trending fetch)) \<le> FINAL_OUTPUT_LIMIT \<and>
   FINAL_OUTPUT_LIMIT = 35 \<and>
   distinct (fst (generate_blended_trending fetch)) \<and>
   (card (fst ` set (fst (aggregate fetch))) < FINAL_OUTPUT_LIMIT \<longrightarrow>
      set (fst (generate_blended_trending fetch)) = fst ` set (fst (aggregate fetch)))"
proof -
  have "length (fst (generate_blended_trending fetch)) \<le> FINAL_OUTPUT_LIMIT"
    by (simp add: generate_eq most_common_def)
  moreover have "distinct (fst (generate_blended_trending fetch))"
    by (simp add: generate_eq distinct_keys_most_common distinct_keys_aggregate)
  moreover have "set (fst (generate_blended_trending fetch)) = fst ` set (fst (aggregate fetch))"
    if "card (fst ` set (fst (aggregate fetch))) < FINAL_OUTPUT_LIMIT"
    using that most_common_all [of "fst (aggregate fetch)" FINAL_OUTPUT_LIMIT]
    by (simp add: generate_eq length_counter_distinct distinct_keys_aggregate)
  ultimately show ?thesis by (simp add: FINAL_OUTPUT_LIMIT_def)
qed

theorem result_bounded_distinct_complete_witness:
  "card (fst ` set (fst (aggregate mock_fetch))) < FINAL_OUTPUT_LIMIT \<and>
   set (fst (generate_blended_trending mock_fetch)) = {''a'', ''b''} \<and>
   fst ` set (fst (aggregate mock_fetch)) = {''a'', ''b''}"
proof -
  have t: "fst (aggregate mock_fetch) = [(''a'', 2), (''b'', 1)]"
    by code_simp
  have c: "card (fst ` set (fst (aggregate mock_fetch))) < FINAL_OUTPUT_LIMIT"
    by (simp add: t FINAL_OUTPUT_LIMIT_def)
  with result_bounded_distinct_complete [of mock_fetch] show ?thesis
    by (simp add: t)
qed

text \<open>
  Claim C2. For two names \<open>x\<close> and \<open>y\<close> of the result: when the count of \<open>x\<close> is
  strictly greater than that of \<open>y\<close>, \<open>x\<close> stands before \<open>y\<close> (so no later); when
  the counts are equal and \<open>x\<close> was first encountered before \<open>y\<close> during the
  accumulation, \<open>x\<close> stands before \<open>y\<close>.
\<close>

theorem result_descending_stable:
  assumes "x \<in> set (fst (generate_blended_trending fetch))"
    and "y \<in> set (fst (generate_blended_trending fetch))"
  shows "(appearance_count fetch x > appearance_count fetch y \<longrightarrow>
            first_index x (fst (generate_blended_trending fetch))
              < first_index y (fst (generate_blended_trending fetch))) \<and>
         (appearance_count fetch x = appearance_count fetch y \<and>
          first_encounter fetch x < first_encounter fetch y \<longrightarrow>
            first_index x (fst (generate_blended_trending fetch))
              < first_index y (fst (generate_blended_trending fetch)))"
proof (intro conjI impI)
  assume "appearance_count fetch x > appearance_count fetch y"
  then show "first_index x (fst (generate_blended_trending fetch))
              < first_index y (fst (generate_blended_trending fetch))"
    using sorted_wrt_first_index [OF result_sorted assms] by auto
next
  assume "appearance_count fetch x = appearance_count fetch y \<and>
          first_encounter fetch x < first_encounter fetch y"
  then show "first_index x (fst (generate_blended_trending fetch))
              < first_index y (fst (generate_blended_trending fetch))"
    using sorted_wrt_first_index [OF result_sorted assms] by auto
qed

theorem result_descending_stable_witness:
  "appearance_count tie_fetch ''r'' > appearance_count tie_fetch ''p'' \<and>
   appearance_count tie_fetch ''p'' = appearance_count tie_fetch ''q'' \<and>
   first_encounter tie_fetch ''p'' < first_encounter tie_fetch ''q'' \<and>
   fst (generate_blended_trending tie_fetch) = [''r'', ''p'', ''q''] \<and>
   first_index ''r'' (fst (generate_blended_trending tie_fetch))
     < first_index ''p'' (fst (generate_blended_trending tie_fetch)) \<and>
   first_index ''p'' (fst (generate_blended_trending tie_fetch))
     < first_index ''q'' (fst (generate_blended_trending tie_fetch))"
proof -
  have res: "fst (generate_blended_trending tie_fetch) = [''r'', ''p'', ''q'']"
    by code_simp
  have cnt: "appearance_count tie_fetch ''r'' > appearance_count tie_fetch ''p''"
    "appearance_count tie_fetch ''p'' = appearance_count tie_fetch ''q''"
    by code_simp+
  have enc: "first_encounter tie_fetch ''p'' < first_encounter tie_fetch ''q''"
    by code_simp
  have mem: "''r'' \<in> set (fst (generate_blended_trending tie_fetch))"
    "''p'' \<in> set (fst (generate_blended_trending tie_fetch))"
    "''q'' \<in> set (fst (generate_blended_trending tie_fetch))"
    by (simp_all add: res)
  from result_descending_stable [OF mem(1) mem(2)] result_descending_stable [OF mem(2) mem(3)]
    cnt enc res
  show ?thesis by blast
qed



text \<open>
  Claim C5. When all eight calls raise, \<open>generate_blended_trending\<close> returns the
  empty list (it returns: the model has no failing branch outside the calls), having
  printed eight warnings.
\<close>

theorem all_fetches_fail:
  assumes "\<forall>s\<in>set SIZE_FILTERS. \<forall>p\<in>set SORT_PERIODS. isl (fetch s p)"
  shows "fst (generate_blended_trending fetch) = [] \<and>
         length (snd (generate_blended_trending fetch)) = 8"
proof -
  have "\<forall>call\<in>set combinations. isl (fetch (fst call) (snd call))"
    using assms by (auto simp: combinations_def)
  then have "names_of_calls fetch combinations = []"
    and "length (warnings_of_calls fetch combinations) = 8"
    using all_calls_fail [of combinations fetch] by (simp_all add: length_combinations)
  then show ?thesis
    by (simp add: generate_eq aggregate_eq update_Nil most_common_def)
qed

theorem all_fetches_fail_witness:
  "generate_blended_trending failing_fetch =
     ([], map (\<lambda>call. ''Warning: Failed to fetch '' @ fst call @ ''/'' @ snd call @ '': connection refused'') combinations)"
proof -
  have h: "\<forall>s\<in>set SIZE_FILTERS. \<forall>p\<in>set SORT_PERIODS. isl (failing_fetch s p)"
    by (simp add: failing_fetch_def)
  have "snd (generate_blended_trending failing_fetch) =
     map (\<lambda>call. ''Warning: Failed to fetch '' @ fst call @ ''/'' @ snd call @ '': connection refused'') combinations"
    by code_simp
  with all_fetches_fail [OF h] show ?thesis
    by (simp add: prod_eq_iff)
qed

text \<open>
  Claim C6. An entry whose extracted display name is the empty string adds no name:
  lines 48--51 leave the list as it was, whatever the value of \<open>nsfw\<close>, and so does the
  pass of the loop body. Hence, whatever the block of lines 40--47 does, the empty
  string is in no sequence \<open>fetch_subreddits\<close> returns and is not a key of the counter
  of a run of the script. (The counter of the model takes any value as a key; Python
  refuses a list or an object, which adds no key either.)
\<close>

theorem empty_name_not_tallied:
  "(dict_get sub ''displayName'' (JStr '''') = Inr (JStr '''') \<longrightarrow>
      append_name nsfw sub names = Inr names) \<and>
   (dict_get sub ''displayName'' (JStr '''') = Inr (JStr '''') \<and>
    loop_body block sub names = Inr names' \<longrightarrow> names' = names) \<and>
   (\<forall>fetched. fetch_subreddits (names_of_data block) get s p = Inr fetched \<longrightarrow>
      JStr '''' \<notin> set fetched) \<and>
   JStr '''' \<notin> fst ` set (fst (aggregate (fetch_subreddits (names_of_data block) get)))"
proof (intro conjI impI allI)
  assume "dict_get sub ''displayName'' (JStr '''') = Inr (JStr '''')"
  then show "append_name nsfw sub names = Inr names" by (rule append_name_empty)
next
  assume "dict_get sub ''displayName'' (JStr '''') = Inr (JStr '''') \<and>
    loop_body block sub names = Inr names'"
  then show "names' = names" using loop_body_empty by blast
next
  fix fetched
  assume "fetch_subreddits (names_of_data block) get s p = Inr fetched"
  then have "truthy v" if "v \<in> set fetched" for v
    using that by (rule fetch_subreddits_truthy)
  then show "JStr '''' \<notin> set fetched" by fastforce
next
  show "JStr '''' \<notin> fst ` set (fst (aggregate (fetch_subreddits (names_of_data block) get)))"
    using keys_of_run_truthy [of "JStr ''''" block get] by fastforce
qed

theorem empty_name_not_tallied_witness:
  "dict_get unnamed_entry ''displayName'' (JStr '''') = Inr (JStr '''') \<and>
   append_name ''true'' unnamed_entry [JStr ''kept''] = Inr [JStr ''kept''] \<and>
   loop_body flag_always unnamed_entry [JStr ''kept''] = Inr [JStr ''kept''] \<and>
   fetch_subreddits (names_of_data flag_always) sample_get ''xlarge'' ''weekly''
     = Inr [JStr ''x'', JStr ''y''] \<and>
   fst (aggregate (fetch_subreddits (names_of_data flag_always) sample_get))
     = [(JStr ''x'', 2), (JStr ''y'', 2)]"
proof -
  have h: "dict_get unnamed_entry ''displayName'' (JStr '''') = Inr (JStr '''')"
    by (simp add: unnamed_entry_def)
  have l: "loop_body flag_always unnamed_entry [JStr ''kept''] = Inr [JStr ''kept'']"
    by code_simp
  have run: "fetch_subreddits (names_of_data flag_always) sample_get ''xlarge'' ''weekly''
     = Inr [JStr ''x'', JStr ''y'']"
    by code_simp
  have t: "fst (aggregate (fetch_subreddits (names_of_data flag_always) sample_get))
     = [(JStr ''x'', 2), (JStr ''y'', 2)]"
    by code_simp
  from empty_name_not_tallied [where sub = unnamed_entry and nsfw = "''true''"
      and names = "[JStr ''kept'']" and block = flag_always and names' = "[JStr ''kept'']"] h l run t
  show ?thesis by blast
qed

text \<open>
  Claim C7. With the fetcher of the specification's test (\<open>mock_fetch\<close>), the counter
  holds at least 2 for \<open>a\<close> and at least 1 for \<open>b\<close>, \<open>a\<close> stands strictly before
  \<open>b\<close> in the result, and the result begins with \<open>a\<close>, \<open>b\<close>.
\<close>

theorem mock_ranking:
  "counter_get (fst (aggregate mock_fetch)) ''a'' \<ge> 2 \<and>
   counter_get (fst (aggregate mock_fetch)) ''b'' \<ge> 1 \<and>
   first_index ''a'' (fst (generate_blended_trending mock_fetch))
     < first_index ''b'' (fst (generate_blended_trending mock_fetch)) \<and>
   take 2 (fst (generate_blended_trending mock_fetch)) = [''a'', ''b'']"
  by code_simp

text \<open>
  Claim C8, as stated, fails: \<open>update\<close> counts every occurrence, so a call that
  returns one name nine times takes its count to 9, above the 8 calls of a run.
\<close>

theorem count_exceeds_number_of_calls:
  "(''a'', 9) \<in> set (fst (aggregate repeating_fetch)) \<and>
   \<not> (9 \<le> int (length SIZE_FILTERS * length SORT_PERIODS))"
  by code_simp

text \<open>
  Claim C8, amended. At every point of the run (\<open>counter_at fetch k j\<close>: after the first
  \<open>k\<close> calls of the loops and \<open>j\<close> increments of the next \<open>update\<close>) and at its end,
  every count in the counter is a non-negative integer, the number of times the name
  occurs among the names counted so far. When no call returns a name twice, it is at
  most the number of size filters times the number of sort periods, which is 8.
\<close>

theorem counts_at_every_point:
  "fst (aggregate fetch) = counter_at fetch (length combinations) 0 \<and>
   ((name, c) \<in> set (counter_at fetch k j) \<longrightarrow>
      c = int (count_list (names_so_far fetch k j) name) \<and> 0 \<le> c \<and>
      ((\<forall>s\<in>set SIZE_FILTERS. \<forall>p\<in>set SORT_PERIODS. \<forall>names.
          fetch s p = Inr names \<longrightarrow> distinct names) \<longrightarrow>
         c \<le> int (length SIZE_FILTERS * length SORT_PERIODS))) \<and>
   ((name, c) \<in> set (fst (aggregate fetch)) \<longrightarrow>
      c = int (count_list (names_of_calls fetch combinations) name) \<and> 0 \<le> c \<and>
      ((\<forall>s\<in>set SIZE_FILTERS. \<forall>p\<in>set SORT_PERIODS. \<forall>names.
          fetch s p = Inr names \<longrightarrow> distinct names) \<longrightarrow>
         c \<le> int (length SIZE_FILTERS * length SORT_PERIODS))) \<and>
   length SIZE_FILTERS * length SORT_PERIODS = 8"
proof -
  have point: "c' = int (count_list (names_so_far fetch k' j') name') \<and> 0 \<le> c' \<and>
      ((\<forall>s\<in>set SIZE_FILTERS. \<forall>p\<in>set SORT_PERIODS. \<forall>names.
          fetch s p = Inr names \<longrightarrow> distinct names) \<longrightarrow> c' \<le> 8)"
    if "(name', c') \<in> set (counter_at fetch k' j')" for name' c' k' j'
  proof -
    have "distinct (map fst (counter_at fetch k' j'))"
      by (simp add: counter_at_eq distinct_keys_update)
    then have "c' = counter_get (counter_at fetch k' j') name'"
      using that counter_get_entry by metis
    then have c: "c' = int (count_list (names_so_far fetch k' j') name')"
      by (simp add: counter_at_eq counter_get_update counter_get_Nil)
    then show ?thesis using count_names_so_far [of fetch k' j' name'] by simp
  qed
  have n: "length SIZE_FILTERS * length SORT_PERIODS = 8"
    by (simp add: SIZE_FILTERS_def SORT_PERIODS_def)
  have e: "fst (aggregate fetch) = counter_at fetch (length combinations) 0"
    by (simp add: counter_at_end)
  have s: "names_so_far fetch (length combinations) 0 = names_of_calls fetch combinations"
    by (simp add: names_so_far_def names_of_calls_def)
  from point [of name c k j] point [of name c "length combinations" 0] n e s
  show ?thesis by simp
qed

theorem counts_at_every_point_witness:
  "counter_at flaky_fetch 5 1 = [(''x'', 2), (''y'', 5)] \<and>
   names_so_far flaky_fetch 5 1 = [''x'', ''y'', ''y'', ''x'', ''y'', ''y'', ''y''] \<and>
   fst (aggregate flaky_fetch) = [(''x'', 3), (''y'', 7)] \<and>
   (5::int) = int (count_list (names_so_far flaky_fetch 5 1) ''y'') \<and>
   (5::int) \<le> int (length SIZE_FILTERS * length SORT_PERIODS) \<and>
   (7::int) \<le> int (length SIZE_FILTERS * length SORT_PERIODS)"
proof -
  have h: "\<forall>s\<in>set SIZE_FILTERS. \<forall>p\<in>set SORT_PERIODS. \<forall>names.
      flaky_fetch s p = Inr names \<longrightarrow> distinct names"
    by (auto simp: flaky_fetch_def)
  have t: "counter_at flaky_fetch 5 1 = [(''x'', 2), (''y'', 5)]"
    by code_simp
  have u: "names_so_far flaky_fetch 5 1 = [''x'', ''y'', ''y'', ''x'', ''y'', ''y'', ''y'']"
    by code_simp
  have a: "fst (aggregate flaky_fetch) = [(''x'', 3), (''y'', 7)]"
    by code_simp
  have m: "(''y'', 5) \<in> set (counter_at flaky_fetch 5 1)" by (subst t) simp
  have m': "(''y'', 7) \<in> set (fst (aggregate flaky_fetch))" by (simp add: a)
  from counts_at_every_point [of flaky_fetch "''y''" 5 5 1] h m
  have "(5::int) = int (count_list (names_so_far flaky_fetch 5 1) ''y'') \<and>
        (5::int) \<le> int (length SIZE_FILTERS * length SORT_PERIODS)"
    by blast
  moreover from counts_at_every_point [of flaky_fetch "''y''" 7 0 0] h m'
  have "(7::int) \<le> int (length SIZE_FILTERS * length SORT_PERIODS)"
    by blast
  ultimately show ?thesis using t u a by blast
qed

end
